theory Spec2Isabelle
  imports Complex_Main "HOL-Library.Sublist" "HOL-Library.Char_ord"
begin

section \<open>Python strings\<close>

text \<open>
  Texts are \<open>string\<close>s of 8-bit characters and stand for ASCII text: \<open>str.lower\<close>
  changes the letters A to Z only, \<open>str.strip\<close> removes the ASCII white space, and the
  pattern \<open>\d\<close> matches the digits 0 to 9. Texts with characters outside ASCII are not
  covered.
\<close>

definition lower_char :: "char \<Rightarrow> char" where
  "lower_char c =
     (if CHR ''A'' \<le> c \<and> c \<le> CHR ''Z'' then char_of (of_char c + (32::int)) else c)"

definition str_lower :: "string \<Rightarrow> string" where
  "str_lower s = map lower_char s"

definition is_space :: "char \<Rightarrow> bool" where
  "is_space c = (c \<in> set [CHR '' '', CHR 0x09, CHR 0x0A, CHR 0x0B, CHR 0x0C, CHR 0x0D,
                            CHR 0x1C, CHR 0x1D, CHR 0x1E, CHR 0x1F])"

definition str_strip :: "string \<Rightarrow> string" where
  "str_strip s = rev (dropWhile is_space (rev (dropWhile is_space s)))"

text \<open>\<open>sub in s\<close>: \<open>sub\<close> occurs in \<open>s\<close> as a contiguous substring.\<close>

fun str_in :: "string \<Rightarrow> string \<Rightarrow> bool" where
  "str_in sub [] = (sub = [])"
| "str_in sub (c # cs) = (prefix sub (c # cs) \<or> str_in sub cs)"

text \<open>
  \<open>s.replace(old, new)\<close> for a non-empty \<open>old\<close> (every call of the source passes a
  non-empty literal): the occurrences are replaced from the left and do not overlap, and the
  replaced text is not scanned again.
\<close>

function str_replace :: "string \<Rightarrow> string \<Rightarrow> string \<Rightarrow> string" where
  "str_replace old new [] = []"
| "str_replace old new (c # cs) =
     (if old \<noteq> [] \<and> prefix old (c # cs)
      then new @ str_replace old new (drop (length old) (c # cs))
      else c # str_replace old new cs)"
  by pat_completeness auto
termination
  by (relation "measure (\<lambda>(old, new, s). length s)") (auto simp: neq_Nil_conv)

section \<open>Floats\<close>

text \<open>
  The salaries are Python floats, that is IEEE 754 binary64 numbers. A finite float is
  modelled by the rational number it stands for, and every operation of the source is the
  exact operation followed by the rounding of binary64: to the nearest number with a
  significand of 53 bits, a tie to the even significand, with the exponent not below -1022
  (so small numbers round to multiples of \<open>2 powi -1074\<close>).
\<close>

text \<open>The number of binary digits of a positive integer.\<close>

function bitlen :: "int \<Rightarrow> int" where
  "bitlen n = (if n \<le> 0 then 0 else 1 + bitlen (n div 2))"
  by pat_completeness auto
termination
  by (relation "measure nat") auto

text \<open>The \<open>e\<close> with \<open>2 powi e \<le> x < 2 powi (e + 1)\<close>, for a positive \<open>x\<close>.\<close>

definition log2floor :: "rat \<Rightarrow> int" where
  "log2floor x =
     (let (p, q) = quotient_of x; d = bitlen p - bitlen q
      in if 2 powi d \<le> x then d else d - 1)"

text \<open>Rounding to the nearest integer, a tie to the even one.\<close>

definition round_even :: "rat \<Rightarrow> int" where
  "round_even y =
     (let f = \<lfloor>y\<rfloor>; d = y - of_int f
      in if d < 1 / 2 then f
         else if 1 / 2 < d then f + 1
         else if even f then f
         else f + 1)"

definition exponent :: "rat \<Rightarrow> int" where
  "exponent a = max (log2floor a) (- 1022)"

text \<open>The rounding of binary64, without the overflow.\<close>

definition fl :: "rat \<Rightarrow> rat" where
  "fl x =
     (let a = \<bar>x\<bar>; q = 2 powi (exponent a - 52)
      in sgn x * (of_int (round_even (a / q)) * q))"

text \<open>
  A float that is not negative: finite, or infinity. The pattern of the numbers has no
  sign and the multipliers are positive, so no negative float and no NaN arises. A rounded
  value of \<open>2 ^ 1024\<close> or more is infinity.
\<close>

datatype pyfloat = Fin rat | PInf

definition overflow_threshold :: rat where
  "overflow_threshold = 179769313486231590772930519078902473361797697894230657273430081157732675805500963132708477322407536021120113879871393357658789768814416622492847430639474124377767893424865485276302219601246094119453082952085005768838150682342462881473913110540827237163350510684586298239947245938479716304835356329624224137216"

definition double_of :: "rat \<Rightarrow> pyfloat" where
  "double_of x = (if overflow_threshold \<le> fl x then PInf else Fin (fl x))"

text \<open>\<open>x * m\<close> for a float \<open>x\<close> and a positive integer \<open>m\<close> (which is converted exactly).\<close>

fun float_mul :: "pyfloat \<Rightarrow> int \<Rightarrow> pyfloat" where
  "float_mul (Fin a) m = double_of (a * of_int m)"
| "float_mul PInf m = PInf"

text \<open>
  \<open>round(x, 2)\<close> on a finite float: the exact value of \<open>x\<close> is rounded to the nearest
  multiple of 0.01, a tie to the even one, and the float nearest to that decimal number is
  returned.
\<close>

definition round2 :: "rat \<Rightarrow> rat" where
  "round2 x = fl (of_int (round_even (x * 100)) / 100)"

section \<open>Numbers in a text\<close>

definition is_digit :: "char \<Rightarrow> bool" where
  "is_digit c = (CHR ''0'' \<le> c \<and> c \<le> CHR ''9'')"

text \<open>
  \<open>re.findall(r'\d+(?:\.\d+)?', s)\<close>: the scan goes from the left; a match is a maximal run
  of digits, followed by a period and a maximal run of digits when the period is followed
  by a digit; the scan resumes behind the match.
\<close>

definition has_fraction :: "string \<Rightarrow> bool" where
  "has_fraction r = (case r of c # d # _ \<Rightarrow> c = CHR ''.'' \<and> is_digit d | _ \<Rightarrow> False)"

function findall_numbers :: "string \<Rightarrow> string list" where
  "findall_numbers [] = []"
| "findall_numbers (c # cs) =
     (if \<not> is_digit c then findall_numbers cs
      else let ip = c # takeWhile is_digit cs; r = dropWhile is_digit cs
           in if has_fraction r
              then (ip @ ''.'' @ takeWhile is_digit (tl r)) #
                     findall_numbers (dropWhile is_digit (tl r))
              else ip # findall_numbers r)"
  by pat_completeness auto
termination
proof (relation "measure length", goal_cases)
  case 1
  show ?case by simp
next
  case (2 c cs)
  show ?case by simp
next
  case (3 c cs ip r)
  have "length (dropWhile is_digit (tl r)) \<le> length (tl r)"
    by (rule length_dropWhile_le)
  moreover have "length (tl r) \<le> length r" by simp
  moreover have "length r \<le> length cs"
    using 3 by (simp add: length_dropWhile_le)
  ultimately show ?case by simp
next
  case (4 c cs ip r)
  then show ?case by (simp add: length_dropWhile_le less_Suc_eq_le)
qed

text \<open>
  \<open>float(n)\<close> on a match of the pattern: the float nearest to the decimal number, which is
  the digits before the period plus the digits behind it scaled by the power of ten of
  their number.
\<close>

definition digit_val :: "char \<Rightarrow> int" where
  "digit_val c = of_char c - 48"

definition int_of_digits :: "string \<Rightarrow> int" where
  "int_of_digits ds = foldl (\<lambda>a c. 10 * a + digit_val c) 0 ds"

definition decimal_value :: "string \<Rightarrow> rat" where
  "decimal_value n =
     (let ip = takeWhile is_digit n; fp = drop 1 (dropWhile is_digit n)
      in of_int (int_of_digits ip) + of_int (int_of_digits fp) / 10 ^ length fp)"

definition float_of :: "string \<Rightarrow> pyfloat" where
  "float_of n = double_of (decimal_value n)"

section \<open>analyze_salary_range\<close>

text \<open>
  The class defines \<open>analyze_salary_range\<close> twice; the second definition replaces the first
  one, so it is the one modelled here.
\<close>

text \<open>
  Exceptions, by their class. \<open>ValueError\<close> and \<open>TypeError\<close> are subclasses of
  \<open>Exception\<close>; \<open>SystemExit\<close> and \<open>KeyboardInterrupt\<close> are not, and a clause
  \<open>except Exception\<close> does not catch them.
\<close>

datatype error = ValueError | TypeError | SystemExit | KeyboardInterrupt

fun is_exception :: "error \<Rightarrow> bool" where
  "is_exception ValueError = True"
| "is_exception TypeError = True"
| "is_exception SystemExit = False"
| "is_exception KeyboardInterrupt = False"

text \<open>
  The argument of \<open>analyze_salary_range\<close> is any Python object: \<open>None\<close>, a string, or
  another object, of which the function only uses the truth value; testing it either raises
  or gives a boolean (\<open>PyObj\<close> carries that outcome).
\<close>

datatype pyval = PyNone | PyStr string | PyObj "error + bool"

fun truth :: "pyval \<Rightarrow> error + bool" where
  "truth PyNone = Inr False"
| "truth (PyStr s) = Inr (s \<noteq> [])"
| "truth (PyObj t) = t"

record salary_estimate =
  min_salary :: rat
  max_salary :: rat
  average_salary :: rat

definition zero_estimate :: salary_estimate where
  "zero_estimate = \<lparr>min_salary = 0, max_salary = 0, average_salary = 0\<rparr>"

definition multipliers :: "(string \<times> int) list" where
  "multipliers =
     [(''k'', 1000), (''m'', 1000000), (''thousand'', 1000), (''million'', 1000000),
      (''yr'', 1), (''year'', 1), (''annual'', 1)]"

definition time_multipliers :: "(string \<times> int) list" where
  "time_multipliers =
     [(''/hr'', 2080), (''per hour'', 2080), (''hourly'', 2080),
      (''/day'', 260), (''per day'', 260), (''daily'', 260),
      (''/wk'', 52), (''per week'', 52), (''weekly'', 52),
      (''/mo'', 12), (''per month'', 12), (''monthly'', 12)]"

text \<open>
  Both marker loops: the first key of the table that occurs in the text sets the multiplier
  and is removed from the text; without a match the multiplier stays 1 and the text is
  unchanged.
\<close>

fun first_marker :: "(string \<times> int) list \<Rightarrow> string \<Rightarrow> int \<times> string" where
  "first_marker [] cleaned = (1, cleaned)"
| "first_marker ((key, mult) # rest) cleaned =
     (if str_in key cleaned then (mult, str_replace key [] cleaned)
      else first_marker rest cleaned)"

definition clean :: "string \<Rightarrow> string" where
  "clean salary_text =
     (let cleaned = str_strip (str_lower salary_text);
          cleaned = str_replace '','' [] (str_replace ''$'' [] cleaned);
          cleaned = str_replace ''us'' [] (str_replace ''usd'' [] cleaned)
      in cleaned)"

text \<open>The test \<open>10000 <= n <= 1000000\<close> of the filter; infinity is above the band.\<close>

fun in_band :: "pyfloat \<Rightarrow> bool" where
  "in_band (Fin n) = (10000 \<le> n \<and> n \<le> 1000000)"
| "in_band PInf = False"

text \<open>The rational number of a finite float (every float that passed the filter is finite).\<close>

fun fin :: "pyfloat \<Rightarrow> rat" where
  "fin (Fin n) = n"

text \<open>
  \<open>min(xs)\<close> and \<open>max(xs)\<close> of a non-empty list (on the empty list they raise; every call
  of the source is behind a test that the list is not empty).
\<close>

fun py_min :: "'a::linorder list \<Rightarrow> 'a" where
  "py_min (x # xs) = fold min xs x"

fun py_max :: "'a::linorder list \<Rightarrow> 'a" where
  "py_max (x # xs) = fold max xs x"

text \<open>
  The three outcomes of the function on the numbers that passed the filter: two or more,
  exactly one, none (the return behind the try block). The literals \<open>0.9\<close> and \<open>1.1\<close> are
  the floats nearest to these decimal numbers, and every product, sum and quotient is
  rounded.
\<close>

definition estimate_of :: "rat list \<Rightarrow> salary_estimate" where
  "estimate_of numbers =
     (if 2 \<le> length numbers then
        let min_sal = py_min numbers; max_sal = py_max numbers
        in \<lparr>min_salary = round2 min_sal, max_salary = round2 max_sal,
            average_salary = round2 (fl (fl (min_sal + max_sal) / 2))\<rparr>
      else if length numbers = 1 then
        let salary = numbers ! 0
        in \<lparr>min_salary = round2 (fl (salary * fl (9 / 10))),
            max_salary = round2 (fl (salary * fl (11 / 10))),
            average_salary = round2 salary\<rparr>
      else zero_estimate)"

text \<open>
  The try block on a non-empty string: the two multipliers, the matches of the number
  pattern in what is left of the text, and the scaled numbers inside the salary band.
\<close>

definition time_multiplier :: "string \<Rightarrow> int" where
  "time_multiplier salary_text = fst (first_marker time_multipliers (clean salary_text))"

definition magnitude_multiplier :: "string \<Rightarrow> int" where
  "magnitude_multiplier salary_text =
     fst (first_marker multipliers (snd (first_marker time_multipliers (clean salary_text))))"

definition raw_numbers :: "string \<Rightarrow> string list" where
  "raw_numbers salary_text =
     findall_numbers
       (snd (first_marker multipliers (snd (first_marker time_multipliers (clean salary_text)))))"

definition numbers :: "string \<Rightarrow> rat list" where
  "numbers salary_text =
     map fin
       (filter in_band
          (map (\<lambda>n. float_mul (float_mul (float_of n) (magnitude_multiplier salary_text))
                                 (time_multiplier salary_text))
               (raw_numbers salary_text)))"

text \<open>
  The try block. The first test evaluates \<open>not salary_text\<close>, which raises when the truth
  value of the object does, and then \<open>isinstance(salary_text, str)\<close>.
\<close>

definition analyze_body :: "pyval \<Rightarrow> error + salary_estimate" where
  "analyze_body salary_text =
     (case truth salary_text of
        Inl e \<Rightarrow> Inl e
      | Inr b \<Rightarrow>
          (case salary_text of
             PyStr s \<Rightarrow> if \<not> b then Inr zero_estimate else Inr (estimate_of (numbers s))
           | _ \<Rightarrow> Inr zero_estimate))"

text \<open>
  The call: what it prints and how it ends, with an estimate (\<open>Inr\<close>) or with an exception
  that reaches the caller (\<open>Inl\<close>). The clause \<open>except Exception\<close> catches an exception of
  the try block that is an \<open>Exception\<close>, prints its message behind the words
  \<open>Error parsing salary:\<close> (recorded as the exception printed), and the function returns
  the zero estimate behind the block; any other exception leaves the function.
\<close>

definition analyze_salary_range_io :: "pyval \<Rightarrow> error list \<times> (error + salary_estimate)" where
  "analyze_salary_range_io salary_text =
     (case analyze_body salary_text of
        Inr r \<Rightarrow> ([], Inr r)
      | Inl e \<Rightarrow> if is_exception e then ([e], Inr zero_estimate) else ([], Inl e))"

definition analyze_salary_range :: "pyval \<Rightarrow> error + salary_estimate" where
  "analyze_salary_range salary_text = snd (analyze_salary_range_io salary_text)"


section \<open>detect_work_type\<close>

datatype work_type = On_site | Remote | Hybrid | Unknown

definition work_type_keywords :: "(work_type \<times> string list) list" where
  "work_type_keywords =
     [(On_site, [''on-site'', ''onsite'', ''in office'', ''in-office'', ''office based'',
                 ''office-based'', ''on location'', ''on-location'', ''physical location'']),
      (Remote, [''remote'', ''work from home'', ''wfh'', ''virtual'', ''telecommute'',
                ''telework'', ''100% remote'', ''fully remote'']),
      (Hybrid, [''hybrid'', ''flexible'', ''partially remote'', ''remote optional'',
                ''flexible work arrangement'', ''mix of remote and office''])]"

definition context_markers :: "string list" where
  "context_markers = [''job type:'', ''work arrangement:'', ''location:'', ''position type:'']"

definition priority_order :: "work_type list" where
  "priority_order = [Remote, Hybrid, On_site]"

text \<open>The inner loop over the keywords of one work type, on its entry of \<open>matches\<close>.\<close>

fun score_keywords :: "string \<Rightarrow> string list \<Rightarrow> int \<Rightarrow> int" where
  "score_keywords description [] count = count"
| "score_keywords description (keyword # keywords) count =
     (let count =
            (if str_in keyword description
             then (if list_ex (\<lambda>context. str_in context description) context_markers
                   then count + 2 else count + 1)
             else count);
          count =
            (if str_in (''not '' @ keyword) description \<or> str_in (''no '' @ keyword) description
             then count - 1 else count)
      in score_keywords description keywords count)"

text \<open>
  \<open>matches\<close> behind the loops, in the order of the dictionary: every work type starts at 0
  and only its own keywords change its entry.
\<close>

definition matches_of :: "string \<Rightarrow> (work_type \<times> int) list" where
  "matches_of description =
     map (\<lambda>(work_type, keywords). (work_type, score_keywords description keywords 0))
         work_type_keywords"

text \<open>The decision on \<open>matches\<close>.\<close>

definition decide :: "(work_type \<times> int) list \<Rightarrow> work_type" where
  "decide matches =
     (if matches \<noteq> [] then
        let valid_matches = filter (\<lambda>(k, v). 0 < v) matches
        in if valid_matches \<noteq> [] then
             let max_matches = py_max (map snd valid_matches);
                 max_types = map fst (filter (\<lambda>(wt, count). count = max_matches) valid_matches)
             in if length max_types = 1 then max_types ! 0
                else (case find (\<lambda>work_type. work_type \<in> set max_types) priority_order of
                        Some work_type \<Rightarrow> work_type
                      | None \<Rightarrow> Unknown)
           else Unknown
      else Unknown)"

definition detect_work_type :: "string \<Rightarrow> work_type" where
  "detect_work_type description =
     (if description = [] then Unknown
      else decide (matches_of (str_lower description)))"

section \<open>extract_skills and get_skill_trends\<close>

definition common_skills :: "string list" where
  "common_skills =
     [''python'', ''java'', ''javascript'', ''sql'', ''aws'', ''react'', ''node.js'', ''docker'',
      ''kubernetes'', ''machine learning'', ''data analysis'']"

text \<open>
  The tokenizer is the spaCy pipeline loaded in the constructor, which is not part of the
  repository: the functions take it as the parameter \<open>nlp\<close>, from a text to the texts of its
  tokens. The Python set \<open>skills\<close> is a list without duplicates (\<open>List.insert\<close> adds an
  element that is not yet there); the order in which Python iterates over a set is not
  specified, and no result below depends on the order of that list.
\<close>

fun skills_loop :: "string list \<Rightarrow> string list \<Rightarrow> string list" where
  "skills_loop [] skills = skills"
| "skills_loop (token # doc) skills =
     (let skills = (if token \<in> set common_skills then List.insert token skills else skills);
          skills =
            (case doc of
               [] \<Rightarrow> skills
             | next_token # _ \<Rightarrow>
                 (let bigram = token @ '' '' @ next_token
                  in if bigram \<in> set common_skills then List.insert bigram skills else skills))
      in skills_loop doc skills)"

definition extract_skills :: "(string \<Rightarrow> string list) \<Rightarrow> string \<Rightarrow> string list" where
  "extract_skills nlp text = skills_loop (nlp (str_lower text)) []"

text \<open>
  A job listing is a dictionary; the functions read the keys \<open>description\<close>,
  \<open>salary_range\<close> and \<open>salary\<close>, each of which may be missing (\<open>None\<close>) and otherwise holds
  a string, as the listings of the scrapers do.
\<close>

record job =
  description :: "string option"
  salary_range :: "string option"
  salary :: "string option"

definition get_or :: "'a option \<Rightarrow> 'a \<Rightarrow> 'a" where
  "get_or field dflt = (case field of None \<Rightarrow> dflt | Some v \<Rightarrow> v)"

fun all_skills_loop :: "(string \<Rightarrow> string list) \<Rightarrow> job list \<Rightarrow> string list \<Rightarrow> string list" where
  "all_skills_loop nlp [] all_skills = all_skills"
| "all_skills_loop nlp (job # jobs) all_skills =
     (let text = get_or (description job) [];
          skills = extract_skills nlp text
      in all_skills_loop nlp jobs (all_skills @ skills))"

text \<open>\<open>Counter\<close>: one more for the key at each element of the list.\<close>

fun counter :: "string list \<Rightarrow> (string \<rightharpoonup> nat) \<Rightarrow> (string \<rightharpoonup> nat)" where
  "counter [] counts = counts"
| "counter (x # xs) counts =
     counter xs (counts(x \<mapsto> (case counts x of None \<Rightarrow> 1 | Some c \<Rightarrow> c + 1)))"

definition get_skill_trends :: "(string \<Rightarrow> string list) \<Rightarrow> job list \<Rightarrow> (string \<rightharpoonup> nat)" where
  "get_skill_trends nlp jobs = counter (all_skills_loop nlp jobs []) Map.empty"

text \<open>
  A tokenizer to run the functions with: it splits at blanks. On a text of words and single
  blanks the tokens of the spaCy pipeline are these words.
\<close>

fun split_blanks :: "string \<Rightarrow> string \<Rightarrow> string list" where
  "split_blanks [] word = (if word = [] then [] else [word])"
| "split_blanks (c # cs) word =
     (if c = CHR '' '' then (if word = [] then split_blanks cs [] else word # split_blanks cs [])
      else split_blanks cs (word @ [c]))"

definition blank_tokens :: "string \<Rightarrow> string list" where
  "blank_tokens text = split_blanks text []"

section \<open>get_salary_insights\<close>






section \<open>Properties of the rounding\<close>

declare bitlen.simps [simp del]

lemma bitlen_bounds:
  "0 < n \<Longrightarrow> 1 \<le> bitlen n \<and> 2 ^ nat (bitlen n - 1) \<le> n \<and> n < 2 ^ nat (bitlen n)"
proof (induction n rule: bitlen.induct)
  case (1 n)
  show ?case
  proof (cases "n = 1")
    case True
    have "bitlen 1 = 1" by (simp add: bitlen.simps [of 1] bitlen.simps [of 0])
    with True show ?thesis by simp
  next
    case False
    with 1(2) have m: "0 < n div 2" by simp
    from 1(1) [OF _ m] 1(2) have ih: "1 \<le> bitlen (n div 2)"
      "2 ^ nat (bitlen (n div 2) - 1) \<le> n div 2" "n div 2 < 2 ^ nat (bitlen (n div 2))"
      by simp_all
    have b: "bitlen n = 1 + bitlen (n div 2)" using 1(2) by (simp add: bitlen.simps [of n])
    have n1: "nat (bitlen n - 1) = Suc (nat (bitlen (n div 2) - 1))" using ih(1) b by simp
    have n2: "nat (bitlen n) = Suc (nat (bitlen (n div 2)))" using ih(1) b by simp
    have "2 * (n div 2) \<le> n" "n \<le> 2 * (n div 2) + 1" by simp_all
    with ih(2,3) show ?thesis unfolding n1 n2 using b ih(1) by simp
  qed
qed

lemma bitlen_powi:
  assumes "0 < n"
  shows "(2::rat) powi (bitlen n - 1) \<le> of_int n" and "of_int n < (2::rat) powi (bitlen n)"
proof -
  from bitlen_bounds [OF assms] have b: "1 \<le> bitlen n" "2 ^ nat (bitlen n - 1) \<le> n"
    "n < 2 ^ nat (bitlen n)" by simp_all
  have "(2::rat) powi (bitlen n - 1) = of_int (2 ^ nat (bitlen n - 1))"
    using b(1) by (simp add: power_int_def)
  also have "\<dots> \<le> of_int n" using b(2) by (simp only: of_int_le_iff)
  finally show "(2::rat) powi (bitlen n - 1) \<le> of_int n" .
  have "(of_int n :: rat) < of_int (2 ^ nat (bitlen n))" using b(3) by (simp only: of_int_less_iff)
  also have "\<dots> = (2::rat) powi (bitlen n)" using b(1) by (simp add: power_int_def)
  finally show "of_int n < (2::rat) powi (bitlen n)" .
qed

lemma log2floor_spec:
  assumes "0 < x"
  shows "2 powi log2floor x \<le> x" and "x < 2 powi (log2floor x + 1)"
proof -
  obtain p q where pq: "quotient_of x = (p, q)" by (cases "quotient_of x")
  then have q: "0 < q" and x: "x = of_int p / of_int q"
    using quotient_of_denom_pos quotient_of_div by blast+
  from assms x q have p: "0 < p" by (simp add: zero_less_divide_iff)
  define d where "d = bitlen p - bitlen q"
  have qq: "(0::rat) < of_int q" using q by simp
  have up: "x < 2 powi (d + 1)"
  proof -
    have "of_int p < (2::rat) powi (bitlen p)" by (rule bitlen_powi(2) [OF p])
    moreover have "(2::rat) powi (bitlen q - 1) \<le> of_int q" by (rule bitlen_powi(1) [OF q])
    moreover have "(2::rat) powi (bitlen p) = 2 powi (d + 1) * 2 powi (bitlen q - 1)"
      unfolding d_def by (simp add: power_int_add [symmetric])
    moreover have "(2::rat) powi (d + 1) * 2 powi (bitlen q - 1) \<le> 2 powi (d + 1) * of_int q"
      using bitlen_powi(1) [OF q] by (intro mult_left_mono) simp_all
    ultimately have "of_int p < 2 powi (d + 1) * (of_int q :: rat)"
      by linarith
    then show ?thesis unfolding x using qq by (simp add: pos_divide_less_eq)
  qed
  have lo: "2 powi (d - 1) \<le> x"
  proof -
    have "(2::rat) powi (bitlen p - 1) \<le> of_int p" by (rule bitlen_powi(1) [OF p])
    moreover have "of_int q < (2::rat) powi (bitlen q)" by (rule bitlen_powi(2) [OF q])
    moreover have "(2::rat) powi (bitlen p - 1) = 2 powi (d - 1) * 2 powi (bitlen q)"
      unfolding d_def by (simp add: power_int_add [symmetric])
    moreover have "(2::rat) powi (d - 1) * of_int q \<le> 2 powi (d - 1) * 2 powi (bitlen q)"
      using bitlen_powi(2) [OF q] by (intro mult_left_mono) simp_all
    ultimately have "2 powi (d - 1) * (of_int q :: rat) \<le> of_int p"
      by linarith
    then show ?thesis unfolding x using qq by (simp add: pos_le_divide_eq)
  qed
  have l: "log2floor x = (if 2 powi d \<le> x then d else d - 1)"
    by (simp add: log2floor_def pq d_def Let_def)
  show "2 powi log2floor x \<le> x" using lo by (simp add: l)
  show "x < 2 powi (log2floor x + 1)" using up by (auto simp add: l)
qed

lemma log2floor_eqI:
  assumes "2 powi e \<le> x" and "x < 2 powi (e + 1)"
  shows "log2floor x = e"
proof -
  have "(0::rat) < 2 powi e" by simp
  with assms(1) have x: "0 < x" by linarith
  note s = log2floor_spec [OF x]
  have "\<not> log2floor x < e"
  proof
    assume "log2floor x < e"
    then have "log2floor x + 1 \<le> e" by simp
    then have "(2::rat) powi (log2floor x + 1) \<le> 2 powi e" by (intro power_int_increasing) simp_all
    with s(2) assms(1) show False by linarith
  qed
  moreover have "\<not> e < log2floor x"
  proof
    assume "e < log2floor x"
    then have "e + 1 \<le> log2floor x" by simp
    then have "(2::rat) powi (e + 1) \<le> 2 powi log2floor x" by (intro power_int_increasing) simp_all
    with s(1) assms(2) show False by linarith
  qed
  ultimately show ?thesis by simp
qed

lemma log2floor_mono:
  assumes "0 < x" and "x \<le> y"
  shows "log2floor x \<le> log2floor y"
proof (rule ccontr)
  assume "\<not> log2floor x \<le> log2floor y"
  then have "log2floor y + 1 \<le> log2floor x" by simp
  then have "(2::rat) powi (log2floor y + 1) \<le> 2 powi log2floor x"
    by (intro power_int_increasing) simp_all
  moreover from assms have y: "0 < y" by simp
  ultimately show False
    using log2floor_spec(1) [OF assms(1)] log2floor_spec(2) [OF y] assms(2) by linarith
qed


lemma round_even_bounds:
  "y - 1 / 2 \<le> of_int (round_even y)" "of_int (round_even y) \<le> y + 1 / 2"
proof -
  define f where "f = \<lfloor>y\<rfloor>"
  have f: "of_int f \<le> y" "y < of_int f + 1" unfolding f_def by linarith+
  show "y - 1 / 2 \<le> of_int (round_even y)"
    using f unfolding round_even_def Let_def f_def [symmetric] by (auto split: if_splits)
  show "of_int (round_even y) \<le> y + 1 / 2"
    using f unfolding round_even_def Let_def f_def [symmetric] by (auto split: if_splits)
qed

lemma round_even_of_int [simp]: "round_even (of_int k) = k"
  by (simp add: round_even_def)

lemma round_even_mono:
  assumes "x \<le> y"
  shows "round_even x \<le> round_even y"
proof -
  define f where "f = \<lfloor>x\<rfloor>"
  define g where "g = \<lfloor>y\<rfloor>"
  have fg: "f \<le> g" unfolding f_def g_def using assms by (rule floor_mono)
  have fa: "of_int f \<le> x" "x < of_int f + 1" unfolding f_def by linarith+
  have gb: "of_int g \<le> y" "y < of_int g + 1" unfolding g_def by linarith+
  have rx: "round_even x \<le> f + 1"
    unfolding round_even_def Let_def f_def [symmetric] by (auto split: if_splits)
  have ry: "g \<le> round_even y"
    unfolding round_even_def Let_def g_def [symmetric] by (auto split: if_splits)
  show ?thesis
  proof (cases "f < g")
    case True
    with rx ry show ?thesis by linarith
  next
    case False
    with fg have e: "g = f" by simp
    show ?thesis
      using assms fa gb
      unfolding round_even_def Let_def f_def [symmetric] g_def [symmetric] e
      by (auto split: if_splits)
  qed
qed

lemma exponent_spec:
  assumes "0 < x"
  shows "- 1022 \<le> exponent x" and "x < 2 powi (exponent x + 1)"
    and "2 powi (- 1022) \<le> x \<Longrightarrow> 2 powi exponent x \<le> x"
proof -
  show "- 1022 \<le> exponent x" by (simp add: exponent_def)
  have "log2floor x + 1 \<le> exponent x + 1" by (simp add: exponent_def)
  then have "(2::rat) powi (log2floor x + 1) \<le> 2 powi (exponent x + 1)"
    by (intro power_int_increasing) simp_all
  with log2floor_spec(2) [OF assms] show "x < 2 powi (exponent x + 1)" by linarith
  assume n: "2 powi (- 1022) \<le> x"
  have "- 1022 \<le> log2floor x"
  proof (rule ccontr)
    assume "\<not> - 1022 \<le> log2floor x"
    then have "log2floor x + 1 \<le> - 1022" by simp
    then have "(2::rat) powi (log2floor x + 1) \<le> 2 powi (- 1022)"
      by (intro power_int_increasing) simp_all
    with log2floor_spec(2) [OF assms] n show False by linarith
  qed
  then have "exponent x = log2floor x" by (simp add: exponent_def)
  with log2floor_spec(1) [OF assms] show "2 powi exponent x \<le> x" by simp
qed

lemma exponent_mono:
  assumes "0 < x" and "x \<le> y"
  shows "exponent x \<le> exponent y"
  using log2floor_mono [OF assms] by (simp add: exponent_def)

lemma exponent_eqI:
  assumes "2 powi e \<le> x" and "x < 2 powi (e + 1)" and "- 1022 \<le> e"
  shows "exponent x = e"
  using log2floor_eqI [OF assms(1,2)] assms(3) by (simp add: exponent_def)

lemma fl_pos:
  assumes "0 < x"
  shows "fl x = of_int (round_even (x / 2 powi (exponent x - 52))) * 2 powi (exponent x - 52)"
  using assms by (simp add: fl_def Let_def)

lemma fl_0 [simp]: "fl 0 = 0"
  by (simp add: fl_def)

text \<open>The scaled significand lies between 0 and 2^53, and above 2^52 in the normal range.\<close>

lemma significand_bounds:
  assumes "0 < x"
  shows "0 \<le> round_even (x / 2 powi (exponent x - 52))"
    and "round_even (x / 2 powi (exponent x - 52)) \<le> 2 ^ 53"
    and "2 powi (- 1022) \<le> x \<Longrightarrow> 2 ^ 52 \<le> round_even (x / 2 powi (exponent x - 52))"
proof -
  define q :: rat where "q = 2 powi (exponent x - 52)"
  have q: "0 < q" by (simp add: q_def)
  have e1: "(2::rat) powi (exponent x + 1) = 2 ^ 53 * q"
  proof -
    have "(2::rat) powi (exponent x + 1) = 2 powi (53 + (exponent x - 52))"
      by (rule arg_cong [where f = "power_int 2"]) linarith
    also have "\<dots> = 2 powi 53 * 2 powi (exponent x - 52)" by (rule power_int_add) simp
    finally show ?thesis by (simp add: q_def)
  qed
  have e0: "(2::rat) powi exponent x = 2 ^ 52 * q"
  proof -
    have "(2::rat) powi exponent x = 2 powi (52 + (exponent x - 52))"
      by (rule arg_cong [where f = "power_int 2"]) linarith
    also have "\<dots> = 2 powi 52 * 2 powi (exponent x - 52)" by (rule power_int_add) simp
    finally show ?thesis by (simp add: q_def)
  qed
  have "0 \<le> x / q" using assms q by simp
  then have "round_even 0 \<le> round_even (x / q)" by (rule round_even_mono)
  then show "0 \<le> round_even (x / 2 powi (exponent x - 52))"
    using round_even_of_int [of 0] by (simp add: q_def)
  have "x / q \<le> 2 ^ 53"
    using exponent_spec(2) [OF assms] q unfolding e1 by (simp add: pos_divide_le_eq)
  then have "round_even (x / q) \<le> round_even (of_int (2 ^ 53))"
    by (intro round_even_mono) simp
  then show "round_even (x / 2 powi (exponent x - 52)) \<le> 2 ^ 53"
    by (simp only: round_even_of_int q_def)
  assume "2 powi (- 1022) \<le> x"
  from exponent_spec(3) [OF assms this] have "2 ^ 52 \<le> x / q"
    using q unfolding e0 by (simp add: pos_le_divide_eq)
  then have "round_even (of_int (2 ^ 52)) \<le> round_even (x / q)"
    by (intro round_even_mono) simp
  then show "2 ^ 52 \<le> round_even (x / 2 powi (exponent x - 52))"
    by (simp only: round_even_of_int q_def)
qed


lemma powi_split:
  "(2::rat) powi (e + 1) = 2 ^ 53 * 2 powi (e - 52)" "(2::rat) powi e = 2 ^ 52 * 2 powi (e - 52)"
proof -
  have "(2::rat) powi (e + 1) = 2 powi (53 + (e - 52))"
    by (rule arg_cong [where f = "power_int 2"]) linarith
  also have "\<dots> = 2 powi 53 * 2 powi (e - 52)" by (rule power_int_add) simp
  finally show "(2::rat) powi (e + 1) = 2 ^ 53 * 2 powi (e - 52)" by simp
  have "(2::rat) powi e = 2 powi (52 + (e - 52))"
    by (rule arg_cong [where f = "power_int 2"]) linarith
  also have "\<dots> = 2 powi 52 * 2 powi (e - 52)" by (rule power_int_add) simp
  finally show "(2::rat) powi e = 2 ^ 52 * 2 powi (e - 52)" by simp
qed

lemma normal_range: "1 \<le> x \<Longrightarrow> 2 powi (- 1022) \<le> (x::rat)"
proof -
  assume "1 \<le> x"
  moreover have "(2::rat) powi (- 1022) \<le> 2 powi 0" by (intro power_int_increasing) simp_all
  ultimately show ?thesis by simp
qed

lemma fl_nonneg: "0 \<le> x \<Longrightarrow> 0 \<le> fl x"
proof (cases "x = 0")
  case False
  assume "0 \<le> x"
  with False have x: "0 < x" by simp
  show ?thesis
    unfolding fl_pos [OF x] using significand_bounds(1) [OF x] by simp
qed simp

lemma fl_upper:
  assumes "0 < x"
  shows "fl x \<le> 2 powi (exponent x + 1)"
proof -
  have "(of_int (round_even (x / 2 powi (exponent x - 52))) :: rat) \<le> of_int (2 ^ 53)"
    using significand_bounds(2) [OF assms] by (simp only: of_int_le_iff)
  then have "of_int (round_even (x / 2 powi (exponent x - 52))) * 2 powi (exponent x - 52)
      \<le> 2 ^ 53 * (2::rat) powi (exponent x - 52)"
    by (intro mult_right_mono) simp_all
  then show ?thesis unfolding fl_pos [OF assms] powi_split(1) .
qed

lemma fl_lower:
  assumes "0 < x" and "2 powi (- 1022) \<le> x"
  shows "2 powi exponent x \<le> fl x"
proof -
  have "(of_int (2 ^ 52) :: rat) \<le> of_int (round_even (x / 2 powi (exponent x - 52)))"
    using significand_bounds(3) [OF assms] by (simp only: of_int_le_iff)
  then have "2 ^ 52 * (2::rat) powi (exponent x - 52)
      \<le> of_int (round_even (x / 2 powi (exponent x - 52))) * 2 powi (exponent x - 52)"
    by (intro mult_right_mono) simp_all
  then show ?thesis unfolding fl_pos [OF assms(1)] powi_split(2) [of "exponent x"] .
qed

lemma fl_mono:
  assumes "0 \<le> x" and "x \<le> y"
  shows "fl x \<le> fl y"
proof (cases "x = 0")
  case True
  with assms fl_nonneg [of y] show ?thesis by simp
next
  case False
  with assms have x: "0 < x" and y: "0 < y" by simp_all
  have le: "exponent x \<le> exponent y" using x assms(2) by (rule exponent_mono)
  show ?thesis
  proof (cases "exponent x = exponent y")
    case True
    define q :: rat where "q = 2 powi (exponent y - 52)"
    have q: "0 < q" by (simp add: q_def)
    have "x / q \<le> y / q" using assms(2) q by (simp add: divide_right_mono)
    then have "round_even (x / q) \<le> round_even (y / q)" by (rule round_even_mono)
    then have "(of_int (round_even (x / q)) :: rat) \<le> of_int (round_even (y / q))"
      by (simp only: of_int_le_iff)
    then have "of_int (round_even (x / q)) * q \<le> of_int (round_even (y / q)) * q"
      using q by (intro mult_right_mono) simp_all
    then show ?thesis unfolding fl_pos [OF x] fl_pos [OF y] True q_def .
  next
    case False
    with le have lt: "exponent x + 1 \<le> exponent y" by simp
    then have n: "- 1022 < exponent y" using exponent_spec(1) [OF x] by linarith
    then have "exponent y = log2floor y" by (simp add: exponent_def max_def split: if_splits)
    with log2floor_spec(1) [OF y] have ly: "2 powi exponent y \<le> y" by simp
    have "(2::rat) powi (- 1022) \<le> 2 powi exponent y"
      using n by (intro power_int_increasing) simp_all
    with ly have "2 powi (- 1022) \<le> y" by linarith
    from fl_lower [OF y this] have "2 powi exponent y \<le> fl y" .
    moreover have "(2::rat) powi (exponent x + 1) \<le> 2 powi exponent y"
      using lt by (intro power_int_increasing) simp_all
    moreover note fl_upper [OF x]
    ultimately show ?thesis by linarith
  qed
qed

lemma fl_exact:
  assumes "2 powi e \<le> x" and "x < 2 powi (e + 1)" and "- 1022 \<le> e"
    and "x = of_int k * 2 powi (e - 52)"
  shows "fl x = x"
proof -
  have "(0::rat) < 2 powi e" by simp
  with assms(1) have x: "0 < x" by linarith
  have e: "exponent x = e" using assms(1-3) by (rule exponent_eqI)
  have "x / 2 powi (e - 52) = of_int k" unfolding assms(4) by simp
  then show ?thesis unfolding fl_pos [OF x] e using assms(4) by (simp only: round_even_of_int)
qed

lemma fl_idem:
  assumes "1 \<le> x"
  shows "fl (fl x) = fl x"
proof -
  from assms have x: "0 < x" by simp
  note n = normal_range [OF assms]
  define e where "e = exponent x"
  define k where "k = round_even (x / 2 powi (e - 52))"
  have f: "fl x = of_int k * 2 powi (e - 52)" unfolding k_def e_def by (rule fl_pos [OF x])
  have k: "2 ^ 52 \<le> k" "k \<le> 2 ^ 53"
    unfolding k_def e_def using significand_bounds(2,3) [OF x] n by simp_all
  have e: "- 1022 \<le> e" unfolding e_def by (rule exponent_spec(1) [OF x])
  have lo: "2 powi e \<le> fl x" unfolding e_def by (rule fl_lower [OF x n])
  show ?thesis
  proof (cases "k = 2 ^ 53")
    case True
    have v: "fl x = 2 powi (e + 1)" unfolding f True powi_split(1) [of e] by simp
    have "fl (2 powi (e + 1)) = 2 powi (e + 1)"
    proof (rule fl_exact [where e = "e + 1" and k = "2 ^ 52"])
      show "(2::rat) powi (e + 1) \<le> 2 powi (e + 1)" by simp
      show "(2::rat) powi (e + 1) < 2 powi (e + 1 + 1)"
        by (intro power_int_strict_increasing) simp_all
      show "- 1022 \<le> e + 1" using e by simp
      show "(2::rat) powi (e + 1) = of_int (2 ^ 52) * 2 powi (e + 1 - 52)"
        using powi_split(2) [of "e + 1"] by simp
    qed
    then show ?thesis unfolding v .
  next
    case False
    with k(2) have "k + 1 \<le> 2 ^ 53" by simp
    then have "k < 2 ^ 53" by simp
    then have "(of_int k :: rat) < of_int (2 ^ 53)" by (simp only: of_int_less_iff)
    then have "of_int k * 2 powi (e - 52) < of_int (2 ^ 53) * (2::rat) powi (e - 52)"
      by (intro mult_strict_right_mono) simp_all
    then have up: "fl x < 2 powi (e + 1)" unfolding f powi_split(1) [of e] by simp
    show ?thesis by (rule fl_exact [OF lo up e f])
  qed
qed

lemma fl_double:
  assumes "1 \<le> x"
  shows "fl (2 * x) = 2 * fl x"
proof -
  from assms have x: "0 < x" and x2: "0 < 2 * x" by simp_all
  note n = normal_range [OF assms]
  define e where "e = exponent x"
  have e: "- 1022 \<le> e" unfolding e_def by (rule exponent_spec(1) [OF x])
  have lo: "2 powi e \<le> x" unfolding e_def by (rule exponent_spec(3) [OF x n])
  have up: "x < 2 powi (e + 1)" unfolding e_def by (rule exponent_spec(2) [OF x])
  have p1: "(2::rat) powi (e + 1) = 2 * 2 powi e" by (simp add: power_int_add)
  have p2: "(2::rat) powi (e + 1 + 1) = 2 * 2 powi (e + 1)" by (simp add: power_int_add)
  have e2: "exponent (2 * x) = e + 1"
  proof (rule exponent_eqI)
    show "2 powi (e + 1) \<le> 2 * x" unfolding p1 using lo by simp
    show "2 * x < 2 powi (e + 1 + 1)" unfolding p2 using up by simp
    show "- 1022 \<le> e + 1" using e by simp
  qed
  have q: "(2::rat) powi (e + 1 - 52) = 2 * 2 powi (e - 52)"
  proof -
    have "(2::rat) powi (e + 1 - 52) = 2 powi (1 + (e - 52))"
      by (rule arg_cong [where f = "power_int 2"]) linarith
    also have "\<dots> = 2 powi 1 * 2 powi (e - 52)" by (rule power_int_add) simp
    finally show ?thesis by simp
  qed
  show ?thesis
    unfolding fl_pos [OF x2] fl_pos [OF x] e2 e_def [symmetric] q by simp
qed

lemma fl_1: "fl 1 = 1"
  by code_simp

lemma fl_nonpos: "x \<le> 0 \<Longrightarrow> fl x \<le> 0"
proof (cases "x = 0")
  case False
  assume "x \<le> 0"
  with False have a: "0 < \<bar>x\<bar>" and s: "sgn x = - 1" by simp_all
  have "0 \<le> (of_int (round_even (\<bar>x\<bar> / 2 powi (exponent \<bar>x\<bar> - 52))) :: rat)"
    using significand_bounds(1) [OF a] by simp
  then have "0 \<le> of_int (round_even (\<bar>x\<bar> / 2 powi (exponent \<bar>x\<bar> - 52)))
      * (2::rat) powi (exponent \<bar>x\<bar> - 52)"
    by (intro mult_nonneg_nonneg) simp_all
  then show ?thesis by (simp add: fl_def Let_def s)
qed simp

lemma fl_le_1: "x \<le> 1 \<Longrightarrow> fl x \<le> 1"
proof (cases "0 \<le> x")
  case True
  assume "x \<le> 1"
  with True fl_mono [of x 1] show ?thesis by (simp add: fl_1)
next
  case False
  then have "fl x \<le> 0" by (intro fl_nonpos) simp
  then show ?thesis by simp
qed

text \<open>A rounded value of 1 or more is a float: rounding it again does not change it.\<close>

lemma fl_fl:
  assumes "1 < fl z"
  shows "fl (fl z) = fl z"
proof (cases "1 \<le> z")
  case True
  then show ?thesis by (rule fl_idem)
next
  case False
  then have "fl z \<le> 1" by (intro fl_le_1) simp
  with assms show ?thesis by simp
qed

lemma round2_mono:
  assumes "0 \<le> x" and "x \<le> y"
  shows "round2 x \<le> round2 y"
proof -
  have "round_even 0 \<le> round_even (x * 100)" using assms(1) by (intro round_even_mono) simp
  then have "0 \<le> round_even (x * 100)" using round_even_of_int [of 0] by simp
  then have n: "(0::rat) \<le> of_int (round_even (x * 100)) / 100" by simp
  have "round_even (x * 100) \<le> round_even (y * 100)" using assms(2) by (intro round_even_mono) simp
  then have "(of_int (round_even (x * 100)) :: rat) \<le> of_int (round_even (y * 100))"
    by (simp only: of_int_le_iff)
  then have "(of_int (round_even (x * 100)) :: rat) / 100 \<le> of_int (round_even (y * 100)) / 100"
    by simp
  with n show ?thesis unfolding round2_def by (rule fl_mono)
qed

lemma round2_pos:
  assumes "2 \<le> x"
  shows "0 < round2 x"
proof -
  have "x * 100 - 1 / 2 \<le> of_int (round_even (x * 100))" by (rule round_even_bounds(1))
  with assms have "(1::rat) \<le> of_int (round_even (x * 100)) / 100" by simp
  from fl_mono [OF _ this] have "1 \<le> round2 x" by (simp add: fl_1 round2_def)
  then show ?thesis by simp
qed




lemma fl_9_10: "fl (9 / 10) = 8106479329266893 / 9007199254740992"
  by code_simp

lemma fl_11_10: "fl (11 / 10) = 2476979795053773 / 2251799813685248"
  by code_simp





section \<open>Properties of analyze_salary_range\<close>


lemma numbers_Nil: "numbers [] = []"
  by code_simp

lemma analyze_salary_range_str:
  "analyze_salary_range (PyStr text) = Inr (estimate_of (numbers text))"
  by (cases "text = []")
     (simp_all add: analyze_salary_range_def analyze_salary_range_io_def analyze_body_def
        numbers_Nil estimate_of_def)



text \<open>
  A float is infinity or a rounded number. A multiplier 1 changes no float that the filter
  lets pass, and lets no other pass.
\<close>

lemma double_of_float: "double_of z = PInf \<or> (\<exists>y. double_of z = Fin (fl y))"
  by (auto simp: double_of_def)

lemma float_mul_float:
  "float_mul v m = PInf \<or> (\<exists>y. float_mul v m = Fin (fl y))"
  using double_of_float by (cases v) simp_all






lemma py_min_Min: "xs \<noteq> [] \<Longrightarrow> py_min xs = Min (set xs)"
proof (cases xs)
  case (Cons a list)
  then show ?thesis using Min.set_eq_fold [of a list] by simp
qed simp

lemma py_max_Max: "xs \<noteq> [] \<Longrightarrow> py_max xs = Max (set xs)"
proof (cases xs)
  case (Cons a list)
  then show ?thesis using Max.set_eq_fold [of a list] by simp
qed simp


subsection \<open>One number\<close>




subsection \<open>Two numbers\<close>


lemma estimate_of_range:
  assumes "2 \<le> length ns"
  shows "estimate_of ns =
           \<lparr>min_salary = round2 (Min (set ns)), max_salary = round2 (Max (set ns)),
            average_salary = round2 (fl (fl (Min (set ns) + Max (set ns)) / 2))\<rparr>"
proof -
  from assms have "ns \<noteq> []" by auto
  with assms show ?thesis
    by (simp add: estimate_of_def py_min_Min py_max_Max Let_def)
qed




subsection \<open>The marker thousand\<close>

text \<open>
  Claim C2 at the text \<open>50 thousand\<close>: the cleaning step removes \<open>us\<close> from \<open>thousand\<close>, the
  marker is not found any more, the multiplier stays 1, and 50 is below the band: the
  estimate is zero.
\<close>

theorem thousand_marker_lost:
  "clean ''50 thousand'' = ''50 thoand'' \<and>
   magnitude_multiplier ''50 thousand'' = 1 \<and>
   analyze_salary_range (PyStr ''50 thousand'') =
     Inr \<lparr>min_salary = 0, max_salary = 0, average_salary = 0\<rparr>"
  by code_simp

subsection \<open>Exceptions\<close>





subsection \<open>The invariant of the estimate\<close>

text \<open>Every number that passed the filter is a float inside the band.\<close>

lemma numbers_float:
  assumes "n \<in> set (numbers text)"
  shows "10000 \<le> n" and "n \<le> 1000000" and "fl n = n"
proof -
  from assms obtain v m where v: "n = fin (float_mul v m)" "in_band (float_mul v m)"
    by (auto simp: numbers_def)
  from float_mul_float [of v m] v(2) obtain y where y: "float_mul v m = Fin (fl y)"
    by auto
  with v have n: "n = fl y" and b: "10000 \<le> fl y" "fl y \<le> 1000000" by simp_all
  from b show "10000 \<le> n" "n \<le> 1000000" unfolding n .
  from b(1) have "1 < fl y" by simp
  then show "fl n = n" unfolding n by (rule fl_fl)
qed

lemma fl_9_10_bounds: "1 / 2 \<le> fl (9 / 10)" "fl (9 / 10) \<le> 1"
  unfolding fl_9_10 by simp_all

lemma fl_11_10_bounds: "1 \<le> fl (11 / 10)"
  unfolding fl_11_10 by simp

lemma estimate_of_invariant:
  assumes "\<forall>n\<in>set ns. 10000 \<le> n \<and> n \<le> 1000000 \<and> fl n = n"
  shows "min_salary (estimate_of ns) \<le> average_salary (estimate_of ns) \<and>
         average_salary (estimate_of ns) \<le> max_salary (estimate_of ns) \<and>
         (estimate_of ns = zero_estimate \<or>
          0 < min_salary (estimate_of ns) \<and> 0 < average_salary (estimate_of ns) \<and>
          0 < max_salary (estimate_of ns))"
proof -
  consider "ns = []" | "length ns = 1" | "2 \<le> length ns"
    by (cases ns) (auto simp: Suc_le_eq)
  then show ?thesis
  proof cases
    case 1
    then show ?thesis by (simp add: estimate_of_def zero_estimate_def)
  next
    case 2
    then obtain s where ns: "ns = [s]" by (cases ns) auto
    with assms have b: "10000 \<le> s" and d: "fl s = s" by simp_all
    have lo: "5000 \<le> s * fl (9 / 10)"
    proof -
      have "10000 * (1 / 2) \<le> s * fl (9 / 10)"
        using b fl_9_10_bounds(1) by (intro mult_mono) simp_all
      then show ?thesis by simp
    qed
    have "s * fl (9 / 10) \<le> s * 1" using b fl_9_10_bounds(2) by (intro mult_left_mono) simp_all
    then have "fl (s * fl (9 / 10)) \<le> fl s" using lo by (intro fl_mono) simp_all
    then have u: "fl (s * fl (9 / 10)) \<le> s" unfolding d .
    have "fl 1 \<le> fl (s * fl (9 / 10))" using lo by (intro fl_mono) simp_all
    then have p: "2 \<le> fl (s * fl (9 / 10)) \<or> 1 \<le> fl (s * fl (9 / 10))" by (simp add: fl_1)
    have "fl 5000 \<le> fl (s * fl (9 / 10))" using lo by (intro fl_mono) simp_all
    moreover have "fl 5000 = 5000" by code_simp
    ultimately have g: "2 \<le> fl (s * fl (9 / 10))" by simp
    have "s * 1 \<le> s * fl (11 / 10)" using b fl_11_10_bounds by (intro mult_left_mono) simp_all
    then have "fl s \<le> fl (s * fl (11 / 10))" using b by (intro fl_mono) simp_all
    then have v: "s \<le> fl (s * fl (11 / 10))" unfolding d .
    have m1: "round2 (fl (s * fl (9 / 10))) \<le> round2 s" using g u by (intro round2_mono) simp_all
    have m2: "round2 s \<le> round2 (fl (s * fl (11 / 10)))" using b v by (intro round2_mono) simp_all
    have p: "0 < round2 (fl (s * fl (9 / 10)))" using g by (rule round2_pos)
    from m1 m2 p show ?thesis by (simp add: ns estimate_of_def)
  next
    case 3
    then have ne: "ns \<noteq> []" by auto
    define lo where "lo = Min (set ns)"
    define hi where "hi = Max (set ns)"
    have lo_in: "lo \<in> set ns" unfolding lo_def using ne by (intro Min_in) simp_all
    have hi_in: "hi \<in> set ns" unfolding hi_def using ne by (intro Max_in) simp_all
    have le: "lo \<le> hi" unfolding lo_def using hi_in by (intro Min_le) simp_all
    from lo_in assms have b: "10000 \<le> lo" and dl: "fl lo = lo" by auto
    from hi_in assms have dh: "fl hi = hi" by auto
    from b le have bh: "1 \<le> hi" "1 \<le> lo" by simp_all
    have "fl (2 * lo) \<le> fl (lo + hi)" using b le by (intro fl_mono) simp_all
    then have s1: "2 * lo \<le> fl (lo + hi)" unfolding fl_double [OF bh(2)] dl .
    have "fl (lo + hi) \<le> fl (2 * hi)" using b le by (intro fl_mono) simp_all
    then have s2: "fl (lo + hi) \<le> 2 * hi" unfolding fl_double [OF bh(1)] dh .
    have "fl lo \<le> fl (fl (lo + hi) / 2)" using s1 b by (intro fl_mono) simp_all
    then have h1: "lo \<le> fl (fl (lo + hi) / 2)" unfolding dl .
    have "fl (fl (lo + hi) / 2) \<le> fl hi" using s1 s2 b by (intro fl_mono) simp_all
    then have h2: "fl (fl (lo + hi) / 2) \<le> hi" unfolding dh .
    have m1: "round2 lo \<le> round2 (fl (fl (lo + hi) / 2))" using b h1 by (intro round2_mono) simp_all
    have m2: "round2 (fl (fl (lo + hi) / 2)) \<le> round2 hi" using b h1 h2 by (intro round2_mono) simp_all
    have p: "0 < round2 lo" using b by (intro round2_pos) simp
    have e: "estimate_of ns = \<lparr>min_salary = round2 lo, max_salary = round2 hi,
          average_salary = round2 (fl (fl (lo + hi) / 2))\<rparr>"
      using estimate_of_range [OF 3] by (simp add: lo_def hi_def)
    from m1 m2 p show ?thesis by (simp add: e)
  qed
qed

text \<open>
  Claim C8. Whatever the argument, an estimate that the function returns has
  \<open>min_salary \<le> average_salary \<le> max_salary\<close>, and it is either the zero estimate or has
  three positive fields.
\<close>

theorem estimate_invariant:
  "analyze_salary_range salary_text = Inr r \<longrightarrow>
     min_salary r \<le> average_salary r \<and>
     average_salary r \<le> max_salary r \<and>
     (r = zero_estimate \<or> 0 < min_salary r \<and> 0 < average_salary r \<and> 0 < max_salary r)"
proof
  assume a: "analyze_salary_range salary_text = Inr r"
  show "min_salary r \<le> average_salary r \<and>
     average_salary r \<le> max_salary r \<and>
     (r = zero_estimate \<or> 0 < min_salary r \<and> 0 < average_salary r \<and> 0 < max_salary r)"
  proof (cases salary_text)
    case (PyStr s)
    have "\<forall>n\<in>set (numbers s). 10000 \<le> n \<and> n \<le> 1000000 \<and> fl n = n"
      using numbers_float by blast
    from estimate_of_invariant [OF this] a show ?thesis
      by (simp add: PyStr analyze_salary_range_str)
  next
    case PyNone
    with a show ?thesis
      by (auto simp add: analyze_salary_range_def analyze_salary_range_io_def analyze_body_def
          zero_estimate_def)
  next
    case (PyObj t)
    with a show ?thesis
      by (cases t)
         (auto simp add: analyze_salary_range_def analyze_salary_range_io_def analyze_body_def
            zero_estimate_def split: if_splits)
  qed
qed

text \<open>
  The estimate of \<open>$50,000.05\<close> has three positive fields in this order; the estimate
  behind a caught exception is the zero estimate.
\<close>

theorem estimate_invariant_witness:
  "(\<exists>r. analyze_salary_range (PyStr ''$50,000.05'') = Inr r \<and>
        min_salary r = 3092379889093837 / 68719476736 \<and>
        average_salary r = 3435977272773837 / 68719476736 \<and>
        max_salary r = 944893835912151 / 17179869184 \<and>
        min_salary r \<le> average_salary r \<and> average_salary r \<le> max_salary r \<and>
        0 < min_salary r) \<and>
   analyze_salary_range (PyObj (Inl TypeError)) = Inr zero_estimate"
proof -
  let ?r = "\<lparr>min_salary = 3092379889093837 / 68719476736,
          max_salary = 944893835912151 / 17179869184,
          average_salary = 3435977272773837 / 68719476736\<rparr>"
  have a: "analyze_salary_range (PyStr ''$50,000.05'') = Inr ?r"
    by code_simp
  have z: "analyze_salary_range (PyObj (Inl TypeError)) = Inr zero_estimate"
    by code_simp
  have n: "?r \<noteq> zero_estimate" by (simp add: zero_estimate_def)
  have s: "min_salary ?r = 3092379889093837 / 68719476736"
    "average_salary ?r = 3435977272773837 / 68719476736"
    "max_salary ?r = 944893835912151 / 17179869184"
    by simp_all
  from estimate_invariant [of "PyStr ''$50,000.05''" ?r] a n
  have t: "min_salary ?r \<le> average_salary ?r" "average_salary ?r \<le> max_salary ?r"
     "0 < min_salary ?r"
    by blast+
  from a s t z show ?thesis by blast
qed

section \<open>Properties of get_salary_insights\<close>









section \<open>Properties of detect_work_type\<close>

lemma matches_of_shape:
  "\<exists>a b c. matches_of d = [(On_site, a), (Remote, b), (Hybrid, c)]"
  by (simp only: matches_of_def work_type_keywords_def list.map prod.case) blast

lemma matches_of_Nil: "matches_of [] = [(On_site, 0), (Remote, 0), (Hybrid, 0)]"
  by code_simp

lemma decide_three:
  "decide [(On_site, a), (Remote, b), (Hybrid, c)] =
     (if a \<le> 0 \<and> b \<le> 0 \<and> c \<le> 0 then Unknown
      else if 0 < b \<and> a \<le> b \<and> c \<le> b then Remote
      else if 0 < c \<and> a \<le> c then Hybrid
      else On_site)"
  by (auto simp add: decide_def priority_order_def Let_def max_def)

lemma decide_three_cases:
  fixes a b c :: int
  defines "ms \<equiv> [(On_site, a), (Remote, b), (Hybrid, c)]"
  shows "((\<forall>(wt, v)\<in>set ms. v \<le> 0) \<longrightarrow> decide ms = Unknown) \<and>
         ((\<exists>(wt, v)\<in>set ms. 0 < v) \<longrightarrow>
            (\<exists>top. 0 < top \<and> (\<forall>(wt, v)\<in>set ms. v \<le> top) \<and>
               find (\<lambda>wt. (wt, top) \<in> set ms) [Remote, Hybrid, On_site] = Some (decide ms)))"
proof -
  consider (none) "a \<le> 0 \<and> b \<le> 0 \<and> c \<le> 0"
    | (remote) "0 < b \<and> a \<le> b \<and> c \<le> b"
    | (hybrid) "0 < c \<and> a \<le> c \<and> b < c"
    | (onsite) "0 < a \<and> b < a \<and> c < a"
    by linarith
  then show ?thesis
  proof cases
    case none
    then show ?thesis by (simp add: ms_def decide_three)
  next
    case remote
    then have r: "decide ms = Remote" by (simp add: ms_def decide_three)
    have "0 < b \<and> (\<forall>(wt, v)\<in>set ms. v \<le> b) \<and>
          find (\<lambda>wt. (wt, b) \<in> set ms) [Remote, Hybrid, On_site] = Some Remote"
      using remote by (simp add: ms_def priority_order_def)
    moreover have "\<not> (\<forall>(wt, v)\<in>set ms. v \<le> 0)"
      using remote by (simp add: ms_def)
    ultimately show ?thesis unfolding r by blast
  next
    case hybrid
    then have r: "decide ms = Hybrid" by (simp add: ms_def decide_three)
    have "0 < c \<and> (\<forall>(wt, v)\<in>set ms. v \<le> c) \<and>
          find (\<lambda>wt. (wt, c) \<in> set ms) [Remote, Hybrid, On_site] = Some Hybrid"
      using hybrid by (simp add: ms_def priority_order_def)
    moreover have "\<not> (\<forall>(wt, v)\<in>set ms. v \<le> 0)"
      using hybrid by (simp add: ms_def)
    ultimately show ?thesis unfolding r by blast
  next
    case onsite
    then have r: "decide ms = On_site" by (simp add: ms_def decide_three)
    have "0 < a \<and> (\<forall>(wt, v)\<in>set ms. v \<le> a) \<and>
          find (\<lambda>wt. (wt, a) \<in> set ms) [Remote, Hybrid, On_site] = Some On_site"
      using onsite by (simp add: ms_def priority_order_def)
    moreover have "\<not> (\<forall>(wt, v)\<in>set ms. v \<le> 0)"
      using onsite by (simp add: ms_def)
    ultimately show ?thesis unfolding r by blast
  qed
qed

text \<open>
  Claim C6. When no work type has a positive score the result is \<open>Unknown\<close>. Otherwise
  there is a positive top score that no score exceeds, and the result is the first work
  type of the list Remote, Hybrid, On-site that has the top score.
\<close>

theorem work_type_decision:
  "((\<forall>(wt, v)\<in>set (matches_of (str_lower desc)). v \<le> 0)
      \<longrightarrow> detect_work_type desc = Unknown) \<and>
   ((\<exists>(wt, v)\<in>set (matches_of (str_lower desc)). 0 < v)
      \<longrightarrow> (\<exists>top. 0 < top \<and>
             (\<forall>(wt, v)\<in>set (matches_of (str_lower desc)). v \<le> top) \<and>
             find (\<lambda>wt. (wt, top) \<in> set (matches_of (str_lower desc)))
               [Remote, Hybrid, On_site] = Some (detect_work_type desc)))"
proof -
  obtain a b c where m: "matches_of (str_lower desc) = [(On_site, a), (Remote, b), (Hybrid, c)]"
    using matches_of_shape by blast
  have d: "detect_work_type desc = decide (matches_of (str_lower desc))"
  proof (cases "desc = []")
    case True
    then show ?thesis
      by (simp add: detect_work_type_def str_lower_def matches_of_Nil decide_three)
  next
    case False
    then show ?thesis by (simp add: detect_work_type_def)
  qed
  show ?thesis
    unfolding d m by (rule decide_three_cases)
qed

text \<open>
  Every tie, with the scores of the three work types: Remote before Hybrid, Hybrid before
  On-site, Remote before On-site, Remote when all three tie; a single winner; and a
  description that only negates a keyword.
\<close>

theorem work_type_decision_witness:
  "matches_of (str_lower ''Hybrid or remote'') = [(On_site, 0), (Remote, 1), (Hybrid, 1)] \<and>
   detect_work_type ''Hybrid or remote'' = Remote \<and>
   matches_of (str_lower ''Office based or hybrid'') = [(On_site, 1), (Remote, 0), (Hybrid, 1)] \<and>
   detect_work_type ''Office based or hybrid'' = Hybrid \<and>
   matches_of (str_lower ''Remote or onsite'') = [(On_site, 1), (Remote, 1), (Hybrid, 0)] \<and>
   detect_work_type ''Remote or onsite'' = Remote \<and>
   matches_of (str_lower ''Onsite, hybrid or remote'') = [(On_site, 1), (Remote, 1), (Hybrid, 1)] \<and>
   detect_work_type ''Onsite, hybrid or remote'' = Remote \<and>
   matches_of (str_lower ''Onsite'') = [(On_site, 1), (Remote, 0), (Hybrid, 0)] \<and>
   detect_work_type ''Onsite'' = On_site \<and>
   matches_of (str_lower ''not remote'') = [(On_site, 0), (Remote, 0), (Hybrid, 0)] \<and>
   detect_work_type ''not remote'' = Unknown"
proof -
  have m: "matches_of (str_lower ''Hybrid or remote'') = [(On_site, 0), (Remote, 1), (Hybrid, 1)]"
    "matches_of (str_lower ''Office based or hybrid'') = [(On_site, 1), (Remote, 0), (Hybrid, 1)]"
    "matches_of (str_lower ''Remote or onsite'') = [(On_site, 1), (Remote, 1), (Hybrid, 0)]"
    "matches_of (str_lower ''Onsite, hybrid or remote'') = [(On_site, 1), (Remote, 1), (Hybrid, 1)]"
    "matches_of (str_lower ''Onsite'') = [(On_site, 1), (Remote, 0), (Hybrid, 0)]"
    "matches_of (str_lower ''not remote'') = [(On_site, 0), (Remote, 0), (Hybrid, 0)]"
    by code_simp+
  have "detect_work_type ''Hybrid or remote'' = Remote"
    using work_type_decision [of "''Hybrid or remote''"] unfolding m by (auto split: if_splits)
  moreover have "detect_work_type ''Office based or hybrid'' = Hybrid"
    using work_type_decision [of "''Office based or hybrid''"] unfolding m by (auto split: if_splits)
  moreover have "detect_work_type ''Remote or onsite'' = Remote"
    using work_type_decision [of "''Remote or onsite''"] unfolding m by (auto split: if_splits)
  moreover have "detect_work_type ''Onsite, hybrid or remote'' = Remote"
    using work_type_decision [of "''Onsite, hybrid or remote''"] unfolding m by (auto split: if_splits)
  moreover have "detect_work_type ''Onsite'' = On_site"
    using work_type_decision [of "''Onsite''"] unfolding m by (auto split: if_splits)
  moreover have "detect_work_type ''not remote'' = Unknown"
    using work_type_decision [of "''not remote''"] unfolding m by (auto split: if_splits)
  ultimately show ?thesis using m by blast
qed

section \<open>Properties of extract_skills and get_skill_trends\<close>

lemma skills_loop_set:
  "set (skills_loop doc skills) =
     set skills \<union>
     {s \<in> set common_skills.
        s \<in> set doc \<or> (\<exists>i. Suc i < length doc \<and> s = doc ! i @ '' '' @ doc ! Suc i)}"
proof (induction doc arbitrary: skills)
  case Nil
  then show ?case by simp
next
  case (Cons token doc)
  have big: "\<And>s. (\<exists>i. Suc i < length (token # doc) \<and> s = (token # doc) ! i @ '' '' @ (token # doc) ! Suc i)
      \<longleftrightarrow> (doc \<noteq> [] \<and> s = token @ '' '' @ hd doc) \<or>
          (\<exists>i. Suc i < length doc \<and> s = doc ! i @ '' '' @ doc ! Suc i)"
  proof -
    fix s
    show "(\<exists>i. Suc i < length (token # doc) \<and> s = (token # doc) ! i @ '' '' @ (token # doc) ! Suc i)
      \<longleftrightarrow> (doc \<noteq> [] \<and> s = token @ '' '' @ hd doc) \<or>
          (\<exists>i. Suc i < length doc \<and> s = doc ! i @ '' '' @ doc ! Suc i)"
      (is "?L \<longleftrightarrow> ?R")
    proof
      assume ?L
      then obtain i where i: "Suc i < length (token # doc)"
        "s = (token # doc) ! i @ '' '' @ (token # doc) ! Suc i" by blast
      show ?R
      proof (cases i)
        case 0
        with i show ?thesis by (cases doc) auto
      next
        case (Suc j)
        with i show ?thesis by auto
      qed
    next
      assume ?R
      then show ?L
      proof
        assume "doc \<noteq> [] \<and> s = token @ '' '' @ hd doc"
        then have "Suc 0 < length (token # doc) \<and>
           s = (token # doc) ! 0 @ '' '' @ (token # doc) ! Suc 0"
          by (cases doc) auto
        then show ?L by blast
      next
        assume "\<exists>i. Suc i < length doc \<and> s = doc ! i @ '' '' @ doc ! Suc i"
        then obtain i where "Suc i < length doc" "s = doc ! i @ '' '' @ doc ! Suc i" by blast
        then have "Suc (Suc i) < length (token # doc) \<and>
           s = (token # doc) ! Suc i @ '' '' @ (token # doc) ! Suc (Suc i)" by simp
        then show ?L by blast
      qed
    qed
  qed
  show ?case
    unfolding skills_loop.simps Let_def Cons.IH big
    by (cases doc) auto
qed

lemma skills_loop_distinct: "distinct skills \<Longrightarrow> distinct (skills_loop doc skills)"
  by (induction doc arbitrary: skills) (auto simp: Let_def split: list.splits)

lemma common_skills_lower: "\<forall>s\<in>set common_skills. str_lower s = s"
  by code_simp

text \<open>
  Claim C9. The result holds exactly the entries of the vocabulary that are a token of the
  lower-cased text or two adjacent tokens joined by a blank; it holds no element twice, and
  every element is in lower case. When the tokens of \<open>i use python and machine learning daily\<close>
  are its seven words, the skills of \<open>I use Python and Machine Learning daily\<close> are
  \<open>python\<close> and \<open>machine learning\<close>.
\<close>

theorem extract_skills_set:
  "set (extract_skills nlp text) =
     {s \<in> set common_skills.
        s \<in> set (nlp (str_lower text)) \<or>
        (\<exists>i. Suc i < length (nlp (str_lower text)) \<and>
             s = nlp (str_lower text) ! i @ '' '' @ nlp (str_lower text) ! Suc i)} \<and>
   distinct (extract_skills nlp text) \<and>
   (\<forall>s\<in>set (extract_skills nlp text). str_lower s = s) \<and>
   (nlp ''i use python and machine learning daily'' =
      [''i'', ''use'', ''python'', ''and'', ''machine'', ''learning'', ''daily'']
    \<longrightarrow> set (extract_skills nlp ''I use Python and Machine Learning daily'') =
          {''python'', ''machine learning''})"
proof (intro conjI impI)
  show s: "set (extract_skills nlp text) =
     {s \<in> set common_skills.
        s \<in> set (nlp (str_lower text)) \<or>
        (\<exists>i. Suc i < length (nlp (str_lower text)) \<and>
             s = nlp (str_lower text) ! i @ '' '' @ nlp (str_lower text) ! Suc i)}"
    by (simp add: extract_skills_def skills_loop_set)
  show "distinct (extract_skills nlp text)"
    by (simp add: extract_skills_def skills_loop_distinct)
  show "\<forall>s\<in>set (extract_skills nlp text). str_lower s = s"
    unfolding s using common_skills_lower by blast
next
  assume t: "nlp ''i use python and machine learning daily'' =
      [''i'', ''use'', ''python'', ''and'', ''machine'', ''learning'', ''daily'']"
  have l: "str_lower ''I use Python and Machine Learning daily'' =
      ''i use python and machine learning daily''"
    by code_simp
  have "set (skills_loop [''i'', ''use'', ''python'', ''and'', ''machine'', ''learning'', ''daily''] [])
      = {''python'', ''machine learning''}"
    by code_simp
  then show "set (extract_skills nlp ''I use Python and Machine Learning daily'') =
          {''python'', ''machine learning''}"
    by (simp only: extract_skills_def l t)
qed

theorem extract_skills_set_witness:
  "blank_tokens ''i use python and machine learning daily'' =
      [''i'', ''use'', ''python'', ''and'', ''machine'', ''learning'', ''daily''] \<and>
   set (extract_skills blank_tokens ''I use Python and Machine Learning daily'') =
          {''python'', ''machine learning''} \<and>
   set (extract_skills blank_tokens ''SQL sql Sql'') = {''sql''} \<and>
   distinct (extract_skills blank_tokens ''SQL sql Sql'')"
proof -
  have h: "blank_tokens ''i use python and machine learning daily'' =
      [''i'', ''use'', ''python'', ''and'', ''machine'', ''learning'', ''daily'']"
    by code_simp
  have "set (extract_skills blank_tokens ''I use Python and Machine Learning daily'') =
          {''python'', ''machine learning''}"
    using extract_skills_set [of blank_tokens] h by blast
  moreover have "distinct (extract_skills blank_tokens ''SQL sql Sql'')"
    using extract_skills_set [of blank_tokens "''SQL sql Sql''"] by blast
  moreover have "set (extract_skills blank_tokens ''SQL sql Sql'') = {''sql''}"
    by code_simp
  ultimately show ?thesis using h by blast
qed

subsection \<open>get_skill_trends\<close>

lemma all_skills_loop_concat:
  "all_skills_loop nlp jobs all_skills =
     all_skills @ concat (map (\<lambda>job. extract_skills nlp (get_or (description job) [])) jobs)"
  by (induction jobs arbitrary: all_skills) (simp_all add: Let_def)

lemma counter_count:
  "counter xs counts k =
     (if k \<in> set xs
      then Some (count_list xs k + (case counts k of None \<Rightarrow> 0 | Some c \<Rightarrow> c))
      else counts k)"
  by (induction xs arbitrary: counts) (auto split: option.splits)

lemma count_list_concat_distinct:
  "\<forall>xs\<in>set xss. distinct xs \<Longrightarrow>
     count_list (concat xss) k = length (filter (\<lambda>xs. k \<in> set xs) xss)"
proof (induction xss)
  case Nil
  then show ?case by simp
next
  case (Cons xs xss)
  then have "distinct xs" by simp
  then have "count_list xs k = (if k \<in> set xs then 1 else 0)"
    by (induction xs) auto
  with Cons show ?case by simp
qed

text \<open>
  Claim C10. The count of a skill is the number of listings whose description yields the
  skill (a skill with no such listing has no entry), so a listing adds at most 1 to it, and
  no count exceeds the number of listings.
\<close>

theorem skill_counted_once_per_listing:
  "get_skill_trends nlp jobs skill =
     (let n = length (filter (\<lambda>job. skill \<in> set (extract_skills nlp (get_or (description job) [])))
                        jobs)
      in if n = 0 then None else Some n) \<and>
   (\<forall>n. get_skill_trends nlp jobs skill = Some n \<longrightarrow> n \<le> length jobs)"
proof -
  define f where "f = (\<lambda>job :: job. extract_skills nlp (get_or (description job) []))"
  have d: "\<forall>xs\<in>set (map f jobs). distinct xs"
    by (simp add: f_def extract_skills_def skills_loop_distinct)
  have c: "count_list (concat (map f jobs)) skill = length (filter (\<lambda>job. skill \<in> set (f job)) jobs)"
    using count_list_concat_distinct [OF d, of skill] by (simp add: filter_map comp_def)
  have m: "skill \<in> set (concat (map f jobs)) \<longleftrightarrow> length (filter (\<lambda>job. skill \<in> set (f job)) jobs) \<noteq> 0"
    by (auto simp: filter_empty_conv)
  have g: "get_skill_trends nlp jobs skill =
     (let n = length (filter (\<lambda>job. skill \<in> set (f job)) jobs)
      in if n = 0 then None else Some n)"
    using m c
    by (simp add: get_skill_trends_def all_skills_loop_concat counter_count f_def [symmetric] Let_def)
  have "length (filter (\<lambda>job. skill \<in> set (f job)) jobs) \<le> length jobs"
    by (rule length_filter_le)
  with g show ?thesis
    unfolding f_def Let_def by (auto split: if_splits)
qed

theorem skill_counted_once_per_listing_witness:
  "get_skill_trends blank_tokens
     [\<lparr>description = Some ''python Python sql python'', salary_range = None, salary = None\<rparr>]
     ''python'' = Some 1 \<and>
   get_skill_trends blank_tokens
     [\<lparr>description = Some ''python Python sql python'', salary_range = None, salary = None\<rparr>,
      \<lparr>description = Some ''Java and Python'', salary_range = None, salary = None\<rparr>,
      \<lparr>description = None, salary_range = None, salary = None\<rparr>]
     ''python'' = Some 2"
proof -
  let ?j1 = "\<lparr>description = Some ''python Python sql python'', salary_range = None, salary = None\<rparr>"
  let ?j2 = "\<lparr>description = Some ''Java and Python'', salary_range = None, salary = None\<rparr>"
  let ?j3 = "\<lparr>description = None, salary_range = None, salary = None\<rparr>"
  have a: "length (filter (\<lambda>job. ''python'' \<in> set (extract_skills blank_tokens (get_or (description job) [])))
                        [?j1]) = 1"
    by code_simp
  have b: "length (filter (\<lambda>job. ''python'' \<in> set (extract_skills blank_tokens (get_or (description job) [])))
                        [?j1, ?j2, ?j3]) = 2"
    by code_simp
  have "get_skill_trends blank_tokens [?j1] ''python'' = Some 1"
    using skill_counted_once_per_listing [of blank_tokens "[?j1]" "''python''"]
    unfolding a Let_def by simp
  moreover have "get_skill_trends blank_tokens [?j1, ?j2, ?j3] ''python'' = Some 2"
    using skill_counted_once_per_listing [of blank_tokens "[?j1, ?j2, ?j3]" "''python''"]
    unfolding b Let_def by simp
  ultimately show ?thesis by blast
qed

end
